theory Spec2Isabelle
  imports Complex_Main
begin

section \<open>Battery pack charging and balancing simulation\<close>

text \<open>
  A shallow embedding of the simulation engine of \<^verbatim>\<open>src/index.html\<close> (the four-case
  page) and of the standalone passive-balancing pages \<^verbatim>\<open>src/passive.js\<close> and
  \<^verbatim>\<open>src/unnamed/part_000\<close>.

  JavaScript numbers are IEEE doubles; here they are real numbers, so rounding is not
  modelled. The places where a double leaves the reals are written out as branches:
  a division by a zero capacity (\<open>+Infinity\<close>, which the clamp turns into 1), and
  \<^verbatim>\<open>Math.max(...[])\<close> / \<^verbatim>\<open>Math.min(...[])\<close> on an empty pack (\<open>-Infinity\<close> and
  \<open>+Infinity\<close>). Reading \<^verbatim>\<open>cells[0]\<close> of an empty pack yields \<^verbatim>\<open>undefined\<close>, and the
  property access on it throws a TypeError: that is the \<open>Inl TypeError\<close> result.
  Canvas drawing changes no simulation variable and is left out.
\<close>

subsection \<open>Data model\<close>

text \<open>A cell object \<^verbatim>\<open>{ capacity, SOC, R }\<close>.\<close>

record cell =
  capacity :: real
  SOC :: real
  R :: real

text \<open>The values the variable \<^verbatim>\<open>phase\<close> is ever assigned.\<close>

datatype phase = Charging | Balancing | Done

text \<open>
  \<open>TypeError\<close> is what the runtime throws on \<^verbatim>\<open>undefined.SOC\<close>. \<open>InvalidCaseError\<close> is
  the error the specification names for the reset; no statement of the source throws it.
\<close>

datatype error = InvalidCaseError | TypeError

text \<open>
  The simulation variables. The standalone pages have the first four; the four-case
  page adds \<^verbatim>\<open>simulationCase\<close>, the result of \<^verbatim>\<open>parseInt\<close> on the selector's value
  (an integer; \<^verbatim>\<open>NaN\<close> compares unequal to 1, 2, 3 and 4, as any integer outside
  that range does).
\<close>

record pack_state =
  phase :: phase
  chargingActive :: bool
  simulationRunning :: bool
  cells :: "cell list"

record sim_state = pack_state +
  simulationCase :: int

subsection \<open>Constants (index.html lines 54-62)\<close>

definition V_MIN :: real where "V_MIN = 3.0"
definition V_MAX :: real where "V_MAX = 4.2"
definition OVP :: real where "OVP = 4.2"
definition I_BASE :: real where "I_BASE = 0.005"
definition dPassive :: real where "dPassive = 0.001"
definition dActive :: real where "dActive = 0.001"
definition tolVoltage :: real where "tolVoltage = 0.005"

subsection \<open>initCells, getOCV, getMeasuredVoltage (lines 76-99)\<close>

definition initCells :: "cell list" where
  "initCells =
     [\<lparr>capacity = 3.0, SOC = 0.70, R = 0.05\<rparr>,
      \<lparr>capacity = 2.5, SOC = 0.50, R = 0.08\<rparr>,
      \<lparr>capacity = 3.5, SOC = 0.90, R = 0.03\<rparr>]"

definition getOCV :: "cell \<Rightarrow> real" where
  "getOCV c = V_MIN + (V_MAX - V_MIN) * SOC c"

text \<open>
  \<^verbatim>\<open>getMeasuredVoltage\<close> reads the global \<^verbatim>\<open>chargingActive\<close>; it is the first
  argument here.
\<close>

definition getMeasuredVoltage :: "bool \<Rightarrow> cell \<Rightarrow> real \<Rightarrow> real" where
  "getMeasuredVoltage ca c current = getOCV c + (if ca then current * R c else 0)"

subsection \<open>getChargingCurrentCase4 (lines 156-168)\<close>

text \<open>The running maximum starts at 0 and is replaced on a strict \<open>>\<close> only.\<close>

definition getChargingCurrentCase4 :: "bool \<Rightarrow> cell list \<Rightarrow> real" where
  "getChargingCurrentCase4 ca cs =
     (let maxV = foldl (\<lambda>m c. let v = getMeasuredVoltage ca c I_BASE
                               in if v > m then v else m) 0 cs
      in if maxV \<ge> OVP then I_BASE * 0.1 else I_BASE)"

subsection \<open>The pieces of updateSimulation (lines 173-268)\<close>

text \<open>
  Lines 185-186, one cell: \<^verbatim>\<open>cell.SOC += I / cell.capacity; if (cell.SOC > 1) cell.SOC = 1\<close>.
  The current is positive wherever this is called (\<open>I_BASE\<close> or a tenth of it), so a
  zero capacity gives \<open>+Infinity\<close>, which the clamp replaces by 1.
\<close>

definition chargeCell :: "real \<Rightarrow> cell \<Rightarrow> cell" where
  "chargeCell I c =
     (if capacity c = 0 then c\<lparr>SOC := 1\<rparr>
      else let c1 = c\<lparr>SOC := SOC c + I / capacity c\<rparr>
           in if SOC c1 > 1 then c1\<lparr>SOC := 1\<rparr> else c1)"

text \<open>
  Lines 205-209 and 238-242: the scan over the pack, with the index \<open>i\<close> of the cell
  at the head and the running (maxVoltage, maxIndex, minVoltage, minIndex).
\<close>

fun scanMaxMin :: "bool \<Rightarrow> real \<Rightarrow> cell list \<Rightarrow> nat \<Rightarrow> real \<times> nat \<times> real \<times> nat
    \<Rightarrow> real \<times> nat \<times> real \<times> nat" where
  "scanMaxMin ca I [] i acc = acc"
| "scanMaxMin ca I (c # rest) i (maxVoltage, maxIndex, minVoltage, minIndex) =
     (let v = getMeasuredVoltage ca c I;
          (maxVoltage', maxIndex') =
             (if v > maxVoltage then (v, i) else (maxVoltage, maxIndex));
          (minVoltage', minIndex') =
             (if v < minVoltage then (v, i) else (minVoltage, minIndex))
      in scanMaxMin ca I rest (Suc i) (maxVoltage', maxIndex', minVoltage', minIndex'))"

text \<open>
  Lines 202-209 and 235-242: both running values start from \<^verbatim>\<open>cells[0]\<close>, which
  throws on an empty pack.
\<close>

definition findMaxMin :: "bool \<Rightarrow> real \<Rightarrow> cell list \<Rightarrow> error + (real \<times> nat \<times> real \<times> nat)" where
  "findMaxMin ca I cs =
     (case cs of
        [] \<Rightarrow> Inl TypeError
      | c0 # _ \<Rightarrow>
          Inr (scanMaxMin ca I cs 0
                 (getMeasuredVoltage ca c0 I, 0, getMeasuredVoltage ca c0 I, 0)))"

text \<open>Lines 212-216 and 244-247: the four statements of the transfer, in order.\<close>

definition transfer :: "nat \<Rightarrow> nat \<Rightarrow> cell list \<Rightarrow> cell list" where
  "transfer maxIndex minIndex cs =
     (let cs1 = cs[maxIndex := (cs ! maxIndex)\<lparr>SOC := SOC (cs ! maxIndex) - dActive\<rparr>];
          cs2 = cs1[minIndex := (cs1 ! minIndex)\<lparr>SOC := SOC (cs1 ! minIndex) + dActive\<rparr>];
          cs3 = (if SOC (cs2 ! maxIndex) < 0
                 then cs2[maxIndex := (cs2 ! maxIndex)\<lparr>SOC := 0\<rparr>] else cs2)
      in if SOC (cs3 ! minIndex) > 1
         then cs3[minIndex := (cs3 ! minIndex)\<lparr>SOC := 1\<rparr>] else cs3)"

text \<open>Lines 202-217 and 235-248: donor and receiver selection, then the transfer.\<close>

definition equalize :: "bool \<Rightarrow> real \<Rightarrow> cell list \<Rightarrow> error + cell list" where
  "equalize ca I cs =
     (case findMaxMin ca I cs of
        Inl e \<Rightarrow> Inl e
      | Inr (maxVoltage, maxIndex, minVoltage, minIndex) \<Rightarrow>
          Inr (if maxVoltage - minVoltage > tolVoltage
               then transfer maxIndex minIndex cs else cs))"

text \<open>
  \<^verbatim>\<open>Math.max(...voltages) - Math.min(...voltages) < tolVoltage\<close>. On an empty list the
  difference is \<open>-Infinity\<close>, which is below the tolerance.
\<close>

definition spreadBelowTol :: "real list \<Rightarrow> bool" where
  "spreadBelowTol voltages =
     (case voltages of
        [] \<Rightarrow> True
      | _ # _ \<Rightarrow> Max (set voltages) - Min (set voltages) < tolVoltage)"

text \<open>
  Lines 229-230, one cell: \<^verbatim>\<open>cell.SOC -= dPassive; if (cell.SOC < 0) cell.SOC = 0\<close>.
\<close>

definition dischargeCell :: "cell \<Rightarrow> cell" where
  "dischargeCell c =
     (let c1 = c\<lparr>SOC := SOC c - dPassive\<rparr>
      in if SOC c1 < 0 then c1\<lparr>SOC := 0\<rparr> else c1)"

text \<open>
  Lines 225-232: passive balancing. The minimum is taken once, before the loop; on an
  empty pack the loop body never runs.
\<close>

definition passiveBalance :: "bool \<Rightarrow> cell list \<Rightarrow> cell list" where
  "passiveBalance ca cs =
     (let minVoltage = Min (set (map (\<lambda>c. getMeasuredVoltage ca c 0) cs))
      in map (\<lambda>c. if getMeasuredVoltage ca c 0 > minVoltage + tolVoltage
                   then dischargeCell c else c) cs)"

text \<open>Lines 175-219: the branch \<^verbatim>\<open>phase === "charging"\<close>.\<close>

definition chargingPhase :: "sim_state \<Rightarrow> error + sim_state" where
  "chargingPhase s =
     (let I_effective =
            (if simulationCase s = 4
             then getChargingCurrentCase4 (chargingActive s) (cells s) else I_BASE);
          s1 = (if chargingActive s
                then s\<lparr>cells := map (chargeCell I_effective) (cells s)\<rparr> else s);
          s2 = (if simulationCase s1 = 1 \<or> simulationCase s1 = 2
                then (if list_ex (\<lambda>c. getMeasuredVoltage (chargingActive s1) c I_effective
                                       \<ge> OVP) (cells s1)
                      then s1\<lparr>chargingActive := False, phase := Balancing\<rparr> else s1)
                else s1)
      in if simulationCase s2 = 3
         then (case equalize (chargingActive s2) I_effective (cells s2) of
                 Inl e \<Rightarrow> Inl e
               | Inr cs \<Rightarrow> Inr (s2\<lparr>cells := cs\<rparr>))
         else Inr s2)"

text \<open>Lines 221-255: the branch \<^verbatim>\<open>phase === "balancing"\<close>.\<close>

definition balancingPhase :: "sim_state \<Rightarrow> error + sim_state" where
  "balancingPhase s =
     (case (if simulationCase s = 1 then Inr (passiveBalance (chargingActive s) (cells s))
            else if simulationCase s = 2 then equalize (chargingActive s) 0 (cells s)
            else Inr (cells s)) of
        Inl e \<Rightarrow> Inl e
      | Inr cs \<Rightarrow>
          (let s1 = s\<lparr>cells := cs\<rparr>;
               voltages = map (\<lambda>c. getMeasuredVoltage (chargingActive s1) c 0) (cells s1)
           in Inr (if spreadBelowTol voltages then s1\<lparr>phase := Done\<rparr> else s1)))"

text \<open>Lines 260-267: the end condition of cases 3 and 4.\<close>

definition endCondition :: "sim_state \<Rightarrow> sim_state" where
  "endCondition s =
     (if (simulationCase s = 3 \<or> simulationCase s = 4) \<and> phase s = Charging
      then (let currentForCalc =
                  (if simulationCase s = 4 \<and> chargingActive s
                   then getChargingCurrentCase4 (chargingActive s) (cells s) else I_BASE);
                voltages =
                  map (\<lambda>c. getMeasuredVoltage (chargingActive s) c currentForCalc) (cells s);
                allFull = list_all (\<lambda>c. SOC c \<ge> 0.99) (cells s)
            in if allFull \<and> spreadBelowTol voltages then s\<lparr>phase := Done\<rparr> else s)
      else s)"

subsection \<open>updateSimulation, animate, resetSimulation\<close>

definition updateSimulation :: "sim_state \<Rightarrow> error + sim_state" where
  "updateSimulation s =
     (case (if phase s = Charging then chargingPhase s
            else if phase s = Balancing then balancingPhase s
            else Inr s) of
        Inl e \<Rightarrow> Inl e
      | Inr s' \<Rightarrow> Inr (endCondition s'))"

text \<open>
  Lines 273-285, one frame. \<^verbatim>\<open>requestAnimationFrame(animate)\<close> only schedules the next
  frame, which is another call of \<open>animate\<close>.
\<close>

definition animate :: "sim_state \<Rightarrow> error + sim_state" where
  "animate s =
     (if \<not> simulationRunning s then Inr s
      else (case updateSimulation s of
              Inl e \<Rightarrow> Inl e
            | Inr s' \<Rightarrow>
                Inr (if phase s' \<noteq> Done then s' else s'\<lparr>simulationRunning := False\<rparr>)))"

text \<open>
  Lines 291-295: the assignments of \<^verbatim>\<open>resetSimulation\<close>, for the selector value
  \<open>caseValue\<close>. Nothing checks the value.
\<close>

definition resetState :: "int \<Rightarrow> sim_state" where
  "resetState caseValue =
     \<lparr>phase = Charging, chargingActive = True, simulationRunning = True,
      cells = initCells, simulationCase = caseValue\<rparr>"

text \<open>Lines 290-297: the assignments, then the first frame (line 296).\<close>

definition resetSimulation :: "int \<Rightarrow> error + sim_state" where
  "resetSimulation caseValue = animate (resetState caseValue)"

text \<open>
  The states of a run: the state the reset assigns, and every state a call of
  \<open>updateSimulation\<close> or a frame of \<open>animate\<close> returns from a state of the run.
\<close>

inductive reachable :: "int \<Rightarrow> sim_state \<Rightarrow> bool" for caseValue :: int where
  reach_reset: "reachable caseValue (resetState caseValue)"
| reach_update: "reachable caseValue s \<Longrightarrow> updateSimulation s = Inr s'
                 \<Longrightarrow> reachable caseValue s'"
| reach_frame: "reachable caseValue s \<Longrightarrow> animate s = Inr s'
                \<Longrightarrow> reachable caseValue s'"

text \<open>The inductive predicate can be run: it enumerates the states of a run.\<close>

code_pred reachable .

subsection \<open>The standalone passive-balancing pages\<close>

text \<open>
  \<^verbatim>\<open>src/passive.js\<close>, lines 132-173. The page has the constants, \<^verbatim>\<open>getOCV\<close> and
  \<^verbatim>\<open>getMeasuredVoltage\<close> of the four-case page, statement for statement, and no
  \<^verbatim>\<open>simulationCase\<close>. Its loops run over the index \<open>i\<close>; the charging loop has no
  test of \<^verbatim>\<open>chargingActive\<close>; the balancing loop reads the voltages from the array
  computed before the loop.
\<close>

definition passive_updateSimulation :: "pack_state \<Rightarrow> pack_state" where
  "passive_updateSimulation p =
     (if phase p = Charging then
        (let cs = map (\<lambda>i. chargeCell I_BASE (cells p ! i)) [0..<length (cells p)];
             overvoltage =
               list_ex (\<lambda>c. getMeasuredVoltage (chargingActive p) c I_BASE \<ge> OVP) cs
         in if overvoltage
            then p\<lparr>cells := cs, chargingActive := False, phase := Balancing\<rparr>
            else p\<lparr>cells := cs\<rparr>)
      else if phase p = Balancing then
        (let measuredVoltages =
               map (\<lambda>c. getMeasuredVoltage (chargingActive p) c 0) (cells p);
             minVoltage = Min (set measuredVoltages);
             cs = map (\<lambda>i. if measuredVoltages ! i > minVoltage + tolVoltage
                            then dischargeCell (cells p ! i) else cells p ! i)
                    [0..<length (cells p)];
             measuredVoltages' = map (\<lambda>c. getMeasuredVoltage (chargingActive p) c 0) cs
         in if spreadBelowTol measuredVoltages' then p\<lparr>cells := cs, phase := Done\<rparr>
            else p\<lparr>cells := cs\<rparr>)
      else p)"

text \<open>
  \<^verbatim>\<open>src/unnamed/part_000\<close>, lines 131-166: the same page as a full HTML document, with
  \<^verbatim>\<open>let\<close> and arrow functions where passive.js has \<^verbatim>\<open>var\<close> and function expressions.
\<close>

definition part000_updateSimulation :: "pack_state \<Rightarrow> pack_state" where
  "part000_updateSimulation p =
     (if phase p = Charging then
        (let cs = map (\<lambda>i. chargeCell I_BASE (cells p ! i)) [0..<length (cells p)];
             overvoltage =
               list_ex (\<lambda>c. getMeasuredVoltage (chargingActive p) c I_BASE \<ge> OVP) cs
         in if overvoltage
            then p\<lparr>cells := cs, chargingActive := False, phase := Balancing\<rparr>
            else p\<lparr>cells := cs\<rparr>)
      else if phase p = Balancing then
        (let measuredVoltages =
               map (\<lambda>c. getMeasuredVoltage (chargingActive p) c 0) (cells p);
             minVoltage = Min (set measuredVoltages);
             cs = map (\<lambda>i. if measuredVoltages ! i > minVoltage + tolVoltage
                            then dischargeCell (cells p ! i) else cells p ! i)
                    [0..<length (cells p)];
             measuredVoltages' = map (\<lambda>c. getMeasuredVoltage (chargingActive p) c 0) cs
         in if spreadBelowTol measuredVoltages' then p\<lparr>cells := cs, phase := Done\<rparr>
            else p\<lparr>cells := cs\<rparr>)
      else p)"

subsection \<open>Invariants used in the proofs\<close>

text \<open>A cell within the bounds of the data model: SOC in [0, 1], positive capacity.\<close>

definition cellOK :: "cell \<Rightarrow> bool" where
  "cellOK c = (0 \<le> SOC c \<and> SOC c \<le> 1 \<and> 0 < capacity c)"

text \<open>The invariant of a run started with the selector value \<open>caseValue\<close>.\<close>

definition stateOK :: "int \<Rightarrow> sim_state \<Rightarrow> bool" where
  "stateOK caseValue s =
     (simulationCase s = caseValue \<and> cells s \<noteq> [] \<and> list_all cellOK (cells s) \<and>
      (phase s = Charging \<longrightarrow> chargingActive s) \<and>
      (phase s = Balancing \<longrightarrow> caseValue = 1 \<or> caseValue = 2))"

text \<open>
  The invariant of the scan after the cells before index \<open>i\<close>: both indices are in
  range and carry the running values, the running maximum bounds the cells seen so far
  and is strictly above every cell before its index, and dually for the minimum.
\<close>

definition scanInv :: "(cell \<Rightarrow> real) \<Rightarrow> cell list \<Rightarrow> nat \<Rightarrow> real \<times> nat \<times> real \<times> nat \<Rightarrow> bool" where
  "scanInv v cs i acc =
     (case acc of (maxVoltage, maxIndex, minVoltage, minIndex) \<Rightarrow>
        maxIndex < length cs \<and> minIndex < length cs \<and>
        v (cs ! maxIndex) = maxVoltage \<and> v (cs ! minIndex) = minVoltage \<and>
        (\<forall>j<i. j < length cs \<longrightarrow> v (cs ! j) \<le> maxVoltage) \<and>
        (\<forall>j<maxIndex. v (cs ! j) < maxVoltage) \<and>
        (\<forall>j<i. j < length cs \<longrightarrow> minVoltage \<le> v (cs ! j)) \<and>
        (\<forall>j<minIndex. minVoltage < v (cs ! j)))"

text \<open>
  The state of a case-1 run after \<open>n\<close> steps, for as long as no cell is clamped and
  no cell trips the overvoltage check (\<open>n \<le> 69\<close>): every step adds
  \<open>I_BASE / capacity\<close> to each SOC.
\<close>

definition charging1 :: "nat \<Rightarrow> sim_state" where
  "charging1 n =
     \<lparr>phase = Charging, chargingActive = True, simulationRunning = True,
      cells = [\<lparr>capacity = 3, SOC = 7 / 10 + real n / 600, R = 1 / 20\<rparr>,
               \<lparr>capacity = 5 / 2, SOC = 1 / 2 + real n / 500, R = 2 / 25\<rparr>,
               \<lparr>capacity = 7 / 2, SOC = 9 / 10 + real n / 700, R = 3 / 100\<rparr>],
      simulationCase = 1\<rparr>"

text \<open>
  The same run after the trip, \<open>k\<close> steps into balancing: at first the first and
  the third cell are both bled (\<open>k \<le> 173\<close>), then the third alone
  (\<open>173 \<le> k \<le> 355\<close>); the next step ends the run in \<open>done1\<close>.
\<close>

definition balancing1a :: "nat \<Rightarrow> sim_state" where
  "balancing1a k =
     \<lparr>phase = Balancing, chargingActive = False, simulationRunning = True,
      cells = [\<lparr>capacity = 3, SOC = 49 / 60 - real k / 1000, R = 1 / 20\<rparr>,
               \<lparr>capacity = 5 / 2, SOC = 16 / 25, R = 2 / 25\<rparr>,
               \<lparr>capacity = 7 / 2, SOC = 1 - real k / 1000, R = 3 / 100\<rparr>],
      simulationCase = 1\<rparr>"

definition balancing1b :: "nat \<Rightarrow> sim_state" where
  "balancing1b k =
     \<lparr>phase = Balancing, chargingActive = False, simulationRunning = True,
      cells = [\<lparr>capacity = 3, SOC = 49 / 60 - 173 / 1000, R = 1 / 20\<rparr>,
               \<lparr>capacity = 5 / 2, SOC = 16 / 25, R = 2 / 25\<rparr>,
               \<lparr>capacity = 7 / 2, SOC = 1 - real k / 1000, R = 3 / 100\<rparr>],
      simulationCase = 1\<rparr>"

definition done1 :: sim_state where
  "done1 =
     \<lparr>phase = Done, chargingActive = False, simulationRunning = True,
      cells = [\<lparr>capacity = 3, SOC = 1931 / 3000, R = 1 / 20\<rparr>,
               \<lparr>capacity = 5 / 2, SOC = 16 / 25, R = 2 / 25\<rparr>,
               \<lparr>capacity = 7 / 2, SOC = 161 / 250, R = 3 / 100\<rparr>],
      simulationCase = 1\<rparr>"

text \<open>
  The states of a run given as a list: every state but the first is what
  \<open>updateSimulation\<close> returns from the one before it.
\<close>

fun consecutive :: "sim_state list \<Rightarrow> bool" where
  "consecutive (s # s' # rest) = (updateSimulation s = Inr s' \<and> consecutive (s' # rest))"
| "consecutive _ = True"

text \<open>
  The state of a case-3 run after \<open>n\<close> steps, for as long as the third cell is
  the donor and the second the receiver of every step (\<open>n \<le> 150\<close>): a step adds
  \<open>I_BASE / capacity\<close> to each SOC and moves \<open>dActive\<close> from the third cell to
  the second. \<open>charged3 n\<close> is the pack of step \<open>n + 1\<close> between the increment
  and the transfer.
\<close>

definition charging3 :: "nat \<Rightarrow> sim_state" where
  "charging3 n =
     \<lparr>phase = Charging, chargingActive = True, simulationRunning = True,
      cells = [\<lparr>capacity = 3, SOC = 7 / 10 + real n / 600, R = 1 / 20\<rparr>,
               \<lparr>capacity = 5 / 2, SOC = 1 / 2 + 3 * real n / 1000, R = 2 / 25\<rparr>,
               \<lparr>capacity = 7 / 2, SOC = 9 / 10 + 3 * real n / 7000, R = 3 / 100\<rparr>],
      simulationCase = 3\<rparr>"

definition charged3 :: "nat \<Rightarrow> cell list" where
  "charged3 n =
     [\<lparr>capacity = 3, SOC = 7 / 10 + real (Suc n) / 600, R = 1 / 20\<rparr>,
      \<lparr>capacity = 5 / 2, SOC = 1 / 2 + 3 * real n / 1000 + 1 / 500, R = 2 / 25\<rparr>,
      \<lparr>capacity = 7 / 2, SOC = 9 / 10 + 3 * real n / 7000 + 1 / 700, R = 3 / 100\<rparr>]"

text \<open>
  The rest of that run, state by state, from step 150 to step 172, where it is done.
\<close>

definition equalizing3 :: "real \<Rightarrow> real \<Rightarrow> real \<Rightarrow> sim_state" where
  "equalizing3 a b c =
     \<lparr>phase = Charging, chargingActive = True, simulationRunning = True,
      cells = [\<lparr>capacity = 3, SOC = a, R = 1 / 20\<rparr>,
               \<lparr>capacity = 5 / 2, SOC = b, R = 2 / 25\<rparr>,
               \<lparr>capacity = 7 / 2, SOC = c, R = 3 / 100\<rparr>],
      simulationCase = 3\<rparr>"

definition done3 :: sim_state where
  "done3 = (equalizing3 (743 / 750) (497 / 500) (3471 / 3500))\<lparr>phase := Done\<rparr>"

definition trace3 :: "sim_state list" where
  "trace3 =
     map (\<lambda>(a, b, c). equalizing3 a b c)
       [(19 / 20, 19 / 20, 27 / 28),
        (1429 / 1500, 119 / 125, 6753 / 7000),
        (2863 / 3000, 191 / 200, 1689 / 1750),
        (957 / 1000, 957 / 1000, 6759 / 7000),
        (2879 / 3000, 959 / 1000, 483 / 500),
        (721 / 750, 481 / 500, 1353 / 1400),
        (241 / 250, 241 / 250, 846 / 875),
        (2897 / 3000, 483 / 500, 3389 / 3500),
        (1451 / 1500, 121 / 125, 1697 / 1750),
        (969 / 1000, 97 / 100, 3399 / 3500),
        (364 / 375, 243 / 250, 851 / 875),
        (2917 / 3000, 487 / 500, 487 / 500),
        (487 / 500, 122 / 125, 1707 / 1750),
        (2927 / 3000, 489 / 500, 3419 / 3500),
        (733 / 750, 49 / 50, 856 / 875),
        (979 / 1000, 491 / 500, 3429 / 3500),
        (1471 / 1500, 123 / 125, 1717 / 1750),
        (2947 / 3000, 493 / 500, 3439 / 3500),
        (123 / 125, 987 / 1000, 197 / 200),
        (2957 / 3000, 989 / 1000, 1381 / 1400),
        (1481 / 1500, 991 / 1000, 1383 / 1400),
        (989 / 1000, 993 / 1000, 277 / 280)]
     @ [done3]"

text \<open>Two states of that run: after 156 steps and after 171 steps.\<close>

definition balanced3 :: sim_state where
  "balanced3 = equalizing3 (241 / 250) (241 / 250) (846 / 875)"

definition lastCharging3 :: sim_state where
  "lastCharging3 = equalizing3 (989 / 1000) (993 / 1000) (277 / 280)"

section \<open>Auxiliary lemmas\<close>

subsection \<open>The running maximum of getChargingCurrentCase4\<close>

lemma running_max_step:
  "(b \<le> (if m < v then v else m)) = (b \<le> m \<or> b \<le> v)" for b m v :: real
  by (cases "m < v") auto

lemma foldl_running_max_ge:
  "(b \<le> foldl (\<lambda>m c. if m < f c then f c else m) a cs)
     = (b \<le> a \<or> list_ex (\<lambda>c. b \<le> f c) cs)"
  for f :: "'a \<Rightarrow> real"
proof (induction cs arbitrary: a)
  case Nil
  show ?case by simp
next
  case (Cons c cs)
  have "(b \<le> foldl (\<lambda>m c. if m < f c then f c else m) a (c # cs))
      = (b \<le> (if a < f c then f c else a) \<or> list_ex (\<lambda>c. b \<le> f c) cs)"
    using Cons.IH [of "if a < f c then f c else a"] by (simp only: foldl_Cons)
  also have "\<dots> = (b \<le> a \<or> list_ex (\<lambda>c. b \<le> f c) (c # cs))"
    by (simp only: running_max_step list_ex_Cons_iff) blast
  finally show ?case .
qed

lemma Max_map_ge_iff:
  "cs \<noteq> [] \<Longrightarrow> (b \<le> Max (set (map f cs))) = list_ex (\<lambda>c. b \<le> f c) cs"
  for f :: "'a \<Rightarrow> real"
  by (simp add: Max_ge_iff list_ex_iff)

subsection \<open>Cells stay within bounds\<close>

lemma chargeCell_OK: "0 \<le> I \<Longrightarrow> cellOK c \<Longrightarrow> cellOK (chargeCell I c)"
  by (simp add: cellOK_def chargeCell_def Let_def)

lemma chargeCell_mono: "0 \<le> I \<Longrightarrow> cellOK c \<Longrightarrow> SOC c \<le> SOC (chargeCell I c)"
  by (simp add: cellOK_def chargeCell_def Let_def)

lemma current4_pos: "0 < getChargingCurrentCase4 ca cs"
  by (simp add: getChargingCurrentCase4_def Let_def I_BASE_def)

lemma scanMaxMin_inv:
  "drop i cs = rest \<Longrightarrow> scanInv (\<lambda>c. getMeasuredVoltage ca c I) cs i acc
   \<Longrightarrow> scanInv (\<lambda>c. getMeasuredVoltage ca c I) cs (length cs) (scanMaxMin ca I rest i acc)"
proof (induction rest arbitrary: i acc)
  case Nil
  then show ?case by (auto simp: scanInv_def)
next
  case (Cons c rest)
  obtain maxV maxI minV minI where acc: "acc = (maxV, maxI, minV, minI)"
    by (cases acc) auto
  from Cons.prems(1) have i: "i < length cs"
    by (metis drop_all list.distinct(1) not_le)
  from Cons.prems(1) i have c: "cs ! i = c" and rest: "drop (Suc i) cs = rest"
    by (simp_all add: Cons_nth_drop_Suc [symmetric])
  let ?v = "getMeasuredVoltage ca c I"
  let ?acc' = "(if ?v > maxV then ?v else maxV, if ?v > maxV then i else maxI,
                if ?v < minV then ?v else minV, if ?v < minV then i else minI)"
  have step: "scanMaxMin ca I (c # rest) i acc = scanMaxMin ca I rest (Suc i) ?acc'"
    by (simp add: acc Let_def)
  have "scanInv (\<lambda>c. getMeasuredVoltage ca c I) cs (Suc i) ?acc'"
    using Cons.prems(2) i c unfolding acc scanInv_def
    by (auto simp: less_Suc_eq)
  from Cons.IH [OF rest this] show ?case by (simp only: step)
qed

lemma findMaxMin_inv:
  assumes "cs \<noteq> []"
  shows "\<exists>acc. findMaxMin ca I cs = Inr acc \<and>
           scanInv (\<lambda>c. getMeasuredVoltage ca c I) cs (length cs) acc"
proof -
  from assms obtain c0 cs' where cs: "cs = c0 # cs'" by (cases cs) auto
  have "scanInv (\<lambda>c. getMeasuredVoltage ca c I) cs 0
          (getMeasuredVoltage ca c0 I, 0, getMeasuredVoltage ca c0 I, 0)"
    by (simp add: scanInv_def cs)
  from scanMaxMin_inv [OF _ this, of cs] show ?thesis
    by (simp add: findMaxMin_def cs)
qed

lemma transfer_length: "length (transfer maxIndex minIndex cs) = length cs"
  by (simp add: transfer_def Let_def)

lemma transfer_OK:
  assumes "maxIndex < length cs" "minIndex < length cs" "list_all cellOK cs"
  shows "list_all cellOK (transfer maxIndex minIndex cs)"
proof -
  have "cellOK (transfer maxIndex minIndex cs ! n)" if "n < length cs" for n
    using assms that
    by (auto simp: transfer_def Let_def list_all_length nth_list_update cellOK_def dActive_def)
  then show ?thesis by (simp add: list_all_length transfer_length)
qed

lemma equalize_OK:
  assumes "cs \<noteq> []" "list_all cellOK cs"
  shows "\<exists>cs'. equalize ca I cs = Inr cs' \<and> list_all cellOK cs' \<and> length cs' = length cs"
proof -
  from findMaxMin_inv [OF assms(1), of ca I] obtain maxV maxI minV minI where
    f: "findMaxMin ca I cs = Inr (maxV, maxI, minV, minI)" and
    inv: "scanInv (\<lambda>c. getMeasuredVoltage ca c I) cs (length cs) (maxV, maxI, minV, minI)"
    by (metis prod_cases4)
  from inv have "maxI < length cs" "minI < length cs" by (simp_all add: scanInv_def)
  with assms(2) show ?thesis
    by (simp add: equalize_def f transfer_OK transfer_length)
qed

lemma passiveBalance_OK: "list_all cellOK cs \<Longrightarrow> list_all cellOK (passiveBalance ca cs)"
  by (auto simp: passiveBalance_def dischargeCell_def Let_def list_all_iff cellOK_def dPassive_def)

lemma passiveBalance_length: "length (passiveBalance ca cs) = length cs"
  by (simp add: passiveBalance_def Let_def)


lemma I_effective_pos:
  "0 \<le> (if simulationCase s = 4
          then getChargingCurrentCase4 (chargingActive s) (cells s) else I_BASE)"
  using current4_pos [of "chargingActive s" "cells s"] by (simp add: I_BASE_def)

lemma charged_OK:
  "0 \<le> I \<Longrightarrow> list_all cellOK cs \<Longrightarrow> list_all cellOK (map (chargeCell I) cs)"
  by (simp add: list_all_iff chargeCell_OK)

lemma chargingPhase_step:
  assumes ok: "stateOK c s" and ph: "phase s = Charging"
  shows "\<exists>s'. chargingPhase s = Inr s' \<and> stateOK c s' \<and>
            simulationRunning s' = simulationRunning s \<and>
            length (cells s') = length (cells s) \<and>
            (phase s' = Charging \<and> chargingActive s' \<or>
             phase s' = Balancing \<and> \<not> chargingActive s' \<and> (c = 1 \<or> c = 2))"
proof -
  let ?I = "if simulationCase s = 4
      then getChargingCurrentCase4 (chargingActive s) (cells s) else I_BASE"
  let ?cs1 = "map (chargeCell ?I) (cells s)"
  have I: "0 \<le> ?I" by (rule I_effective_pos)
  from ok have sc: "simulationCase s = c" and ne: "cells s \<noteq> []"
    and cok: "list_all cellOK (cells s)" and ca: "chargingActive s"
    using ph by (simp_all add: stateOK_def)
  have cs1: "?cs1 \<noteq> []" "list_all cellOK ?cs1"
    using ne charged_OK [OF I cok] by simp_all
  show ?thesis
  proof (cases "c = 3")
    case True
    from equalize_OK [OF cs1, of True] obtain cs' where
      eq: "equalize True ?I ?cs1 = Inr cs'" and cs': "list_all cellOK cs'"
        "length cs' = length ?cs1"
      by blast
    from cs'(2) cs1(1) have "cs' \<noteq> []" by auto
    with eq cs' True show ?thesis
      using sc ca ph
      by (simp add: chargingPhase_def Let_def stateOK_def)
  next
    case False
    with cs1 show ?thesis
      using sc ca ph
      by (auto simp: chargingPhase_def Let_def stateOK_def split: if_splits)
  qed
qed

lemma balancingPhase_step:
  assumes ok: "stateOK c s" and ph: "phase s = Balancing"
  shows "\<exists>s'. balancingPhase s = Inr s' \<and> stateOK c s' \<and>
            simulationRunning s' = simulationRunning s \<and>
            chargingActive s' = chargingActive s \<and>
            length (cells s') = length (cells s) \<and>
            (phase s' = Balancing \<or> phase s' = Done)"
proof -
  from ok have sc: "simulationCase s = c" and ne: "cells s \<noteq> []"
    and cok: "list_all cellOK (cells s)" and c12: "c = 1 \<or> c = 2"
    using ph by (simp_all add: stateOK_def)
  from c12 show ?thesis
  proof
    assume c: "c = 1"
    have "passiveBalance (chargingActive s) (cells s) \<noteq> []"
      using ne passiveBalance_length [of "chargingActive s" "cells s"] by auto
    then show ?thesis
      using sc c ph cok
      by (simp add: balancingPhase_def Let_def stateOK_def passiveBalance_OK
            passiveBalance_length)
  next
    assume c: "c = 2"
    from equalize_OK [OF ne cok, of "chargingActive s" 0] obtain cs' where
      eq: "equalize (chargingActive s) 0 (cells s) = Inr cs'"
      and cs': "list_all cellOK cs'" "length cs' = length (cells s)"
      by blast
    from cs'(2) ne have "cs' \<noteq> []" by auto
    with eq cs' show ?thesis
      using sc c ph
      by (simp add: balancingPhase_def Let_def stateOK_def)
  qed
qed

lemma endCondition_step:
  assumes ok: "stateOK c s"
  shows "stateOK c (endCondition s) \<and>
         simulationRunning (endCondition s) = simulationRunning s \<and>
         chargingActive (endCondition s) = chargingActive s \<and>
         cells (endCondition s) = cells s \<and>
         (phase (endCondition s) = phase s \<or>
          phase s = Charging \<and> phase (endCondition s) = Done \<and> (c = 3 \<or> c = 4))"
  using ok by (auto simp: endCondition_def Let_def stateOK_def)

lemma updateSimulation_step:
  assumes ok: "stateOK c s"
  shows "\<exists>s'. updateSimulation s = Inr s' \<and> stateOK c s' \<and>
            simulationRunning s' = simulationRunning s \<and>
            length (cells s') = length (cells s) \<and>
            (phase s' = phase s \<and> chargingActive s' = chargingActive s \<or>
             phase s = Charging \<and> phase s' = Balancing \<and> (c = 1 \<or> c = 2) \<and>
               chargingActive s \<and> \<not> chargingActive s' \<or>
             phase s = Charging \<and> phase s' = Done \<and> (c = 3 \<or> c = 4) \<and>
               chargingActive s' = chargingActive s \<or>
             phase s = Balancing \<and> phase s' = Done \<and> (c = 1 \<or> c = 2) \<and>
               chargingActive s' = chargingActive s)"
proof (cases "phase s")
  case Charging
  from chargingPhase_step [OF ok Charging] obtain s1 where
    s1: "chargingPhase s = Inr s1" "stateOK c s1" "simulationRunning s1 = simulationRunning s"
      "length (cells s1) = length (cells s)"
      "phase s1 = Charging \<and> chargingActive s1 \<or>
       phase s1 = Balancing \<and> \<not> chargingActive s1 \<and> (c = 1 \<or> c = 2)"
    by blast
  from ok Charging have ca: "chargingActive s" by (simp add: stateOK_def)
  have upd: "updateSimulation s = Inr (endCondition s1)"
    by (simp add: updateSimulation_def Charging s1(1))
  from endCondition_step [OF s1(2)] s1 ca Charging show ?thesis
    unfolding upd by auto
next
  case Balancing
  from balancingPhase_step [OF ok Balancing] obtain s1 where
    s1: "balancingPhase s = Inr s1" "stateOK c s1" "simulationRunning s1 = simulationRunning s"
      "chargingActive s1 = chargingActive s"
      "length (cells s1) = length (cells s)"
      "phase s1 = Balancing \<or> phase s1 = Done"
    by blast
  from ok Balancing have c12: "c = 1 \<or> c = 2" by (simp add: stateOK_def)
  have upd: "updateSimulation s = Inr (endCondition s1)"
    by (simp add: updateSimulation_def Balancing s1(1))
  from endCondition_step [OF s1(2)] s1 c12 Balancing show ?thesis
    unfolding upd by auto
next
  case Done
  then have "updateSimulation s = Inr s"
    by (simp add: updateSimulation_def endCondition_def)
  with ok Done show ?thesis by simp
qed

subsection \<open>The invariant holds along every run\<close>

lemma resetState_OK: "stateOK c (resetState c)"
  by (simp add: stateOK_def resetState_def initCells_def cellOK_def)

lemma animate_step:
  assumes ok: "stateOK c s"
  shows "\<exists>s'. animate s = Inr s' \<and> stateOK c s'"
proof -
  from updateSimulation_step [OF ok] obtain s1 where
    "updateSimulation s = Inr s1" "stateOK c s1" by blast
  with ok show ?thesis by (simp add: animate_def stateOK_def)
qed

lemma reachable_stateOK: "reachable c s \<Longrightarrow> stateOK c s"
proof (induction rule: reachable.induct)
  case reach_reset
  show ?case by (rule resetState_OK)
next
  case (reach_update s s')
  with updateSimulation_step [of c s] show ?case by auto
next
  case (reach_frame s s')
  with animate_step [of c s] show ?case by auto
qed

subsection \<open>The scan returns the maximum and the minimum\<close>

lemma scanInv_Max_Min:
  assumes "scanInv v cs (length cs) (maxV, maxI, minV, minI)"
  shows "Max (set (map v cs)) = maxV" and "Min (set (map v cs)) = minV"
proof -
  from assms have maxI: "maxI < length cs" "v (cs ! maxI) = maxV"
    and ub: "\<forall>j<length cs. v (cs ! j) \<le> maxV"
    and minI: "minI < length cs" "v (cs ! minI) = minV"
    and lb: "\<forall>j<length cs. minV \<le> v (cs ! j)"
    by (simp_all add: scanInv_def)
  show "Max (set (map v cs)) = maxV"
  proof (rule Max_eqI)
    show "finite (set (map v cs))" by simp
    show "y \<le> maxV" if "y \<in> set (map v cs)" for y
      using that ub by (auto simp: in_set_conv_nth)
    show "maxV \<in> set (map v cs)" using maxI nth_mem [of maxI "map v cs"] by simp
  qed
  show "Min (set (map v cs)) = minV"
  proof (rule Min_eqI)
    show "finite (set (map v cs))" by simp
    show "minV \<le> y" if "y \<in> set (map v cs)" for y
      using that lb by (auto simp: in_set_conv_nth)
    show "minV \<in> set (map v cs)" using minI nth_mem [of minI "map v cs"] by simp
  qed
qed

subsection \<open>The charging branch without a transfer\<close>

lemma chargingPhase_cases_124:
  assumes "simulationCase s \<noteq> 3" "chargingActive s"
  shows "\<exists>s'. chargingPhase s = Inr s' \<and>
     cells s' = map (chargeCell (if simulationCase s = 4
          then getChargingCurrentCase4 (chargingActive s) (cells s) else I_BASE)) (cells s)"
  using assms by (simp add: chargingPhase_def Let_def)

lemma chargingPhase_case_3:
  assumes "simulationCase s = 3" "chargingActive s" "cells s \<noteq> []"
    and "Max (set (map (\<lambda>c. getMeasuredVoltage True c I_BASE)
                    (map (chargeCell I_BASE) (cells s))))
         - Min (set (map (\<lambda>c. getMeasuredVoltage True c I_BASE)
                      (map (chargeCell I_BASE) (cells s)))) \<le> tolVoltage"
  shows "\<exists>s'. chargingPhase s = Inr s' \<and> cells s' = map (chargeCell I_BASE) (cells s)"
proof -
  let ?cs1 = "map (chargeCell I_BASE) (cells s)"
  from assms(3) have ne: "?cs1 \<noteq> []" by simp
  from findMaxMin_inv [OF ne, of True I_BASE] obtain maxV maxI minV minI where
    f: "findMaxMin True I_BASE ?cs1 = Inr (maxV, maxI, minV, minI)" and
    inv: "scanInv (\<lambda>c. getMeasuredVoltage True c I_BASE) ?cs1 (length ?cs1)
            (maxV, maxI, minV, minI)"
    by (metis prod_cases4)
  from scanInv_Max_Min [OF inv] assms(4) have "\<not> maxV - minV > tolVoltage" by simp
  then have "equalize True I_BASE ?cs1 = Inr ?cs1" by (simp add: equalize_def f)
  with assms(1,2) show ?thesis by (simp add: chargingPhase_def Let_def)
qed

subsection \<open>The standalone update, loop by loop\<close>

lemma map_index: "map (\<lambda>i. f (xs ! i)) [0..<length xs] = map f xs"
  by (rule nth_equalityI) auto

lemma map_index_cond:
  "map (\<lambda>i. if m < map g xs ! i then h (xs ! i) else xs ! i) [0..<length xs]
     = map (\<lambda>c. if m < g c then h c else c) xs"
  by (rule nth_equalityI) auto

lemma passiveBalance_index:
  "map (\<lambda>i. if Min (set (map (\<lambda>c. getMeasuredVoltage ca c 0) cs)) + tolVoltage
                  < map (\<lambda>c. getMeasuredVoltage ca c 0) cs ! i
               then dischargeCell (cs ! i) else cs ! i) [0..<length cs]
     = passiveBalance ca cs"
  unfolding passiveBalance_def Let_def by (rule map_index_cond)

lemma passive_updateSimulation_alt:
  "passive_updateSimulation p =
     (if phase p = Charging then
        (if list_ex (\<lambda>c. getMeasuredVoltage (chargingActive p) c I_BASE \<ge> OVP)
              (map (chargeCell I_BASE) (cells p))
         then p\<lparr>cells := map (chargeCell I_BASE) (cells p), chargingActive := False,
                phase := Balancing\<rparr>
         else p\<lparr>cells := map (chargeCell I_BASE) (cells p)\<rparr>)
      else if phase p = Balancing then
        (if spreadBelowTol (map (\<lambda>c. getMeasuredVoltage (chargingActive p) c 0)
              (passiveBalance (chargingActive p) (cells p)))
         then p\<lparr>cells := passiveBalance (chargingActive p) (cells p), phase := Done\<rparr>
         else p\<lparr>cells := passiveBalance (chargingActive p) (cells p)\<rparr>)
      else p)"
  unfolding passive_updateSimulation_def Let_def map_index passiveBalance_index ..

lemma passive_step:
  assumes "simulationCase s = 1" "phase s = Charging \<longrightarrow> chargingActive s"
  shows "\<exists>s'. updateSimulation s = Inr s' \<and> simulationCase s' = 1 \<and>
           pack_state.truncate s' = passive_updateSimulation (pack_state.truncate s)"
proof (cases "phase s")
  case Charging
  with assms show ?thesis
    by (simp add: updateSimulation_def chargingPhase_def endCondition_def Let_def
          passive_updateSimulation_alt pack_state.defs)
next
  case Balancing
  with assms show ?thesis
    by (simp add: updateSimulation_def balancingPhase_def endCondition_def Let_def
          passive_updateSimulation_alt pack_state.defs)
next
  case Done
  with assms show ?thesis
    by (simp add: updateSimulation_def endCondition_def Let_def
          passive_updateSimulation_alt pack_state.defs)
qed

lemma part000_is_passive: "part000_updateSimulation p = passive_updateSimulation p"
  unfolding part000_updateSimulation_def passive_updateSimulation_def ..

text \<open>
  Off the runs the two updates differ: with phase charging and chargingActive false
  the four-case update leaves the reset pack as it is, the standalone update charges it.
\<close>

lemma standalone_differs_off_run:
  "updateSimulation ((resetState 1)\<lparr>chargingActive := False\<rparr>)
     = Inr ((resetState 1)\<lparr>chargingActive := False\<rparr>) \<and>
   passive_updateSimulation (pack_state.truncate ((resetState 1)\<lparr>chargingActive := False\<rparr>))
     \<noteq> pack_state.truncate ((resetState 1)\<lparr>chargingActive := False\<rparr>)"
  by code_simp

subsection \<open>The first frame after a reset\<close>

lemma first_frame_valid:
  "c \<in> {1, 2, 3, 4} \<Longrightarrow>
   (case resetSimulation c of Inl e \<Rightarrow> False
    | Inr s \<Rightarrow> simulationCase s = c \<and> phase s = Charging \<and> chargingActive s)"
proof -
  have "case resetSimulation 1 of Inl e \<Rightarrow> False
    | Inr s \<Rightarrow> simulationCase s = 1 \<and> phase s = Charging \<and> chargingActive s"
    by code_simp
  moreover have "case resetSimulation 2 of Inl e \<Rightarrow> False
    | Inr s \<Rightarrow> simulationCase s = 2 \<and> phase s = Charging \<and> chargingActive s"
    by code_simp
  moreover have "case resetSimulation 3 of Inl e \<Rightarrow> False
    | Inr s \<Rightarrow> simulationCase s = 3 \<and> phase s = Charging \<and> chargingActive s"
    by code_simp
  moreover have "case resetSimulation 4 of Inl e \<Rightarrow> False
    | Inr s \<Rightarrow> simulationCase s = 4 \<and> phase s = Charging \<and> chargingActive s"
    by code_simp
  moreover assume "c \<in> {1, 2, 3, 4}"
  ultimately show ?thesis by auto
qed

lemma first_frame_other:
  "c \<notin> {1, 2, 3, 4} \<Longrightarrow>
   (case resetSimulation c of Inl e \<Rightarrow> False
    | Inr s \<Rightarrow> simulationCase s = c \<and> phase s = Charging \<and> chargingActive s)"
  by (simp add: resetSimulation_def resetState_def animate_def updateSimulation_def
        chargingPhase_def endCondition_def Let_def)

lemma first_frame_3:
  "animate (resetState 3) =
     Inr \<lparr>phase = Charging, chargingActive = True, simulationRunning = True,
        cells =
          [\<lparr>capacity = 3, SOC = 421 / 600, R = 1 / 20\<rparr>,
           \<lparr>capacity = 5 / 2, SOC = 503 / 1000, R = 2 / 25\<rparr>,
           \<lparr>capacity = 7 / 2, SOC = 6303 / 7000, R = 3 / 100\<rparr>],
        simulationCase = 3\<rparr>"
  by code_simp

subsection \<open>The charging run of case 1 up to the overvoltage trip\<close>

lemma charging1_step:
  assumes "n < 69"
  shows "updateSimulation (charging1 n) = Inr (charging1 (Suc n))"
proof -
  from assms have n: "real n < 69" by simp
  have cs: "map (chargeCell I_BASE) (cells (charging1 n)) = cells (charging1 (Suc n))"
    using n by (simp add: charging1_def chargeCell_def I_BASE_def Let_def field_simps)
  have notrip: "\<not> list_ex (\<lambda>c. getMeasuredVoltage True c I_BASE \<ge> OVP)
                    (cells (charging1 (Suc n)))"
    using n by (simp add: charging1_def getMeasuredVoltage_def getOCV_def
          I_BASE_def OVP_def V_MIN_def V_MAX_def field_simps)
  have "chargingPhase (charging1 n) = Inr ((charging1 n)\<lparr>cells := cells (charging1 (Suc n))\<rparr>)"
    using notrip cs [symmetric]
    by (simp add: chargingPhase_def Let_def) (simp add: charging1_def)
  moreover have "(charging1 n)\<lparr>cells := cells (charging1 (Suc n))\<rparr> = charging1 (Suc n)"
    by (simp add: charging1_def)
  ultimately show ?thesis
    by (simp add: updateSimulation_def endCondition_def) (simp add: charging1_def)
qed

lemma charging1_reachable: "n \<le> 69 \<Longrightarrow> reachable 1 (charging1 n)"
proof (induction n)
  case 0
  have "charging1 0 = resetState 1"
    by (simp add: resetState_def charging1_def initCells_def)
  then show ?case by (simp add: reach_reset)
next
  case (Suc n)
  then have "reachable 1 (charging1 n)" "n < 69" by simp_all
  then show ?case by (blast intro: reach_update charging1_step)
qed

text \<open>The 70th step: cell 3 reaches SOC 1, its voltage reaches OVP, charging stops.\<close>

lemma trip_at_70:
  "updateSimulation (charging1 69) =
     Inr \<lparr>phase = Balancing, chargingActive = False, simulationRunning = True,
      cells = [\<lparr>capacity = 3, SOC = 49 / 60, R = 1 / 20\<rparr>,
               \<lparr>capacity = 5 / 2, SOC = 16 / 25, R = 2 / 25\<rparr>,
               \<lparr>capacity = 7 / 2, SOC = 1, R = 3 / 100\<rparr>],
      simulationCase = 1\<rparr>"
  by code_simp

subsection \<open>The balancing run of case 1 down to done\<close>

lemma trip_is_balancing1a: "updateSimulation (charging1 69) = Inr (balancing1a 0)"
  by (simp add: trip_at_70 balancing1a_def)

lemma balancing1a_step:
  assumes "k < 173"
  shows "updateSimulation (balancing1a k) = Inr (balancing1a (Suc k))"
proof -
  from assms have k: "real k \<le> 172" by simp
  have pb: "passiveBalance False (cells (balancing1a k)) = cells (balancing1a (Suc k))"
    using k
    by (simp add: balancing1a_def passiveBalance_def dischargeCell_def Let_def
          getMeasuredVoltage_def getOCV_def V_MIN_def V_MAX_def tolVoltage_def dPassive_def
          min_def field_simps)
  have ns: "\<not> spreadBelowTol (map (\<lambda>c. getMeasuredVoltage False c 0)
                (cells (balancing1a (Suc k))))"
    using k
    by (simp add: balancing1a_def spreadBelowTol_def
          getMeasuredVoltage_def getOCV_def V_MIN_def V_MAX_def tolVoltage_def
          min_def max_def field_simps)
  have "balancingPhase (balancing1a k)
      = Inr ((balancing1a k)\<lparr>cells := cells (balancing1a (Suc k))\<rparr>)"
    using ns pb [symmetric]
    by (simp add: balancingPhase_def Let_def) (simp add: balancing1a_def)
  moreover have "(balancing1a k)\<lparr>cells := cells (balancing1a (Suc k))\<rparr> = balancing1a (Suc k)"
    by (simp add: balancing1a_def)
  ultimately show ?thesis
    by (simp add: updateSimulation_def endCondition_def) (simp add: balancing1a_def)
qed

lemma balancing1a_is_b: "balancing1a 173 = balancing1b 173"
  by (simp add: balancing1a_def balancing1b_def)

lemma balancing1b_step:
  assumes "173 \<le> k" "k < 355"
  shows "updateSimulation (balancing1b k) = Inr (balancing1b (Suc k))"
proof -
  from assms have k: "173 \<le> real k" "real k \<le> 354" by simp_all
  have pb: "passiveBalance False (cells (balancing1b k)) = cells (balancing1b (Suc k))"
    using k
    by (simp add: balancing1b_def passiveBalance_def dischargeCell_def Let_def
          getMeasuredVoltage_def getOCV_def V_MIN_def V_MAX_def tolVoltage_def dPassive_def
          min_def field_simps)
  have ns: "\<not> spreadBelowTol (map (\<lambda>c. getMeasuredVoltage False c 0)
                (cells (balancing1b (Suc k))))"
    using k
    by (simp add: balancing1b_def spreadBelowTol_def
          getMeasuredVoltage_def getOCV_def V_MIN_def V_MAX_def tolVoltage_def
          min_def max_def field_simps)
  have "balancingPhase (balancing1b k)
      = Inr ((balancing1b k)\<lparr>cells := cells (balancing1b (Suc k))\<rparr>)"
    using ns pb [symmetric]
    by (simp add: balancingPhase_def Let_def) (simp add: balancing1b_def)
  moreover have "(balancing1b k)\<lparr>cells := cells (balancing1b (Suc k))\<rparr> = balancing1b (Suc k)"
    by (simp add: balancing1b_def)
  ultimately show ?thesis
    by (simp add: updateSimulation_def endCondition_def) (simp add: balancing1b_def)
qed

lemma balancing1b_last: "updateSimulation (balancing1b 355) = Inr done1"
  unfolding done1_def by code_simp

lemma balancing1a_reachable: "k \<le> 173 \<Longrightarrow> reachable 1 (balancing1a k)"
proof (induction k)
  case 0
  have "reachable 1 (charging1 69)" by (simp add: charging1_reachable)
  then show ?case by (rule reach_update) (rule trip_is_balancing1a)
next
  case (Suc k)
  then have "reachable 1 (balancing1a k)" "k < 173" by simp_all
  then show ?case by (blast intro: reach_update balancing1a_step)
qed

lemma balancing1b_reachable: "173 \<le> k \<Longrightarrow> k \<le> 355 \<Longrightarrow> reachable 1 (balancing1b k)"
proof (induction k)
  case 0
  then show ?case by simp
next
  case (Suc k)
  show ?case
  proof (cases "Suc k = 173")
    case True
    with balancing1a_reachable [of 173] show ?thesis by (simp add: balancing1a_is_b)
  next
    case False
    with Suc.prems have "173 \<le> k" "k < 355" by simp_all
    with Suc.IH have "reachable 1 (balancing1b k)" by simp
    with \<open>173 \<le> k\<close> \<open>k < 355\<close> show ?thesis
      by (blast intro: reach_update balancing1b_step)
  qed
qed

lemma done1_reachable: "reachable 1 done1"
proof -
  have "reachable 1 (balancing1b 355)" by (simp add: balancing1b_reachable)
  then show ?thesis by (rule reach_update) (rule balancing1b_last)
qed

subsection \<open>The run of case 3 down to done\<close>

lemma charging3_charged:
  assumes "n < 150"
  shows "map (chargeCell I_BASE) (cells (charging3 n)) = charged3 n"
proof -
  from assms have n: "real n \<le> 149" by simp
  then show ?thesis
    by (simp add: charging3_def charged3_def chargeCell_def I_BASE_def Let_def field_simps)
qed

lemma charging3_equalize:
  assumes "n < 150"
  shows "equalize True I_BASE (charged3 n) = Inr (cells (charging3 (Suc n)))"
proof -
  from assms have n: "real n \<le> 149" by simp
  let ?v = "\<lambda>i. getMeasuredVoltage True (charged3 n ! i) I_BASE"
  have v: "?v 1 < ?v 0" "?v 0 < ?v 2" "?v 2 - ?v 1 > tolVoltage"
    using n
    by (simp_all add: charged3_def getMeasuredVoltage_def getOCV_def I_BASE_def
          V_MIN_def V_MAX_def tolVoltage_def field_simps)
  have f: "findMaxMin True I_BASE (charged3 n) = Inr (?v 2, 2, ?v 1, 1)"
    using v(1,2) by (simp add: findMaxMin_def charged3_def Let_def)
  have t: "transfer 2 1 (charged3 n) = cells (charging3 (Suc n))"
    using n
    by (simp add: transfer_def charged3_def charging3_def dActive_def Let_def field_simps)
  from v(3) t show ?thesis by (simp add: equalize_def f)
qed

lemma charging3_step:
  assumes "n < 150"
  shows "updateSimulation (charging3 n) = Inr (charging3 (Suc n))"
proof -
  from assms have n: "real n \<le> 149" by simp
  have "chargingPhase (charging3 n) = Inr ((charging3 n)\<lparr>cells := cells (charging3 (Suc n))\<rparr>)"
    using charging3_equalize [OF assms] charging3_charged [OF assms]
    by (simp add: chargingPhase_def Let_def) (simp add: charging3_def)
  moreover have "(charging3 n)\<lparr>cells := cells (charging3 (Suc n))\<rparr> = charging3 (Suc n)"
    by (simp add: charging3_def)
  moreover have "endCondition (charging3 (Suc n)) = charging3 (Suc n)"
    using n by (simp add: endCondition_def Let_def) (simp add: charging3_def)
  ultimately show ?thesis
    by (simp add: updateSimulation_def) (simp add: charging3_def)
qed

lemma charging3_reachable: "n \<le> 150 \<Longrightarrow> reachable 3 (charging3 n)"
proof (induction n)
  case 0
  have "charging3 0 = resetState 3"
    by (simp add: resetState_def charging3_def initCells_def)
  then show ?case by (simp add: reach_reset)
next
  case (Suc n)
  then have "reachable 3 (charging3 n)" "n < 150" by simp_all
  then show ?case by (blast intro: reach_update charging3_step)
qed

lemma charging3_150: "charging3 150 = equalizing3 (19 / 20) (19 / 20) (27 / 28)"
  by (simp add: charging3_def equalizing3_def)

lemma balanced3_step:
  "updateSimulation balanced3
     = Inr (equalizing3 (2897 / 3000) (483 / 500) (3389 / 3500))"
  by code_simp

lemma balanced3_spread:
  "Max (set (map (\<lambda>cell. getMeasuredVoltage True cell I_BASE)
              (map (chargeCell I_BASE)
                 (cells balanced3))))
   - Min (set (map (\<lambda>cell. getMeasuredVoltage True cell I_BASE)
                (map (chargeCell I_BASE)
                   (cells balanced3))))
   \<le> tolVoltage"
  by code_simp

lemma trace3_consecutive: "consecutive trace3"
  by code_simp

lemma consecutive_reachable:
  "reachable c s \<Longrightarrow> consecutive (s # xs) \<Longrightarrow> list_all (reachable c) xs"
proof (induction xs arbitrary: s)
  case Nil
  show ?case by simp
next
  case (Cons x xs)
  from Cons.prems have "reachable c x" "consecutive (x # xs)"
    by (auto intro: reach_update)
  with Cons.IH [of x] show ?case by simp
qed

lemma trace3_reachable: "list_all (reachable 3) trace3"
proof -
  have r: "reachable 3 (equalizing3 (19 / 20) (19 / 20) (27 / 28))"
    using charging3_reachable [of 150] by (simp add: charging3_150)
  have t: "trace3 = equalizing3 (19 / 20) (19 / 20) (27 / 28) # tl trace3"
    by (simp add: trace3_def)
  from trace3_consecutive have "consecutive (equalizing3 (19 / 20) (19 / 20) (27 / 28) # tl trace3)"
    by (simp only: t [symmetric])
  from consecutive_reachable [OF r this] r have
    "list_all (reachable 3) (equalizing3 (19 / 20) (19 / 20) (27 / 28) # tl trace3)"
    by simp
  then show ?thesis by (simp only: t [symmetric])
qed

lemma balanced3_reachable: "reachable 3 balanced3"
  using trace3_reachable by (simp add: trace3_def balanced3_def)

lemma done3_reachable: "reachable 3 done3"
  using trace3_reachable by (simp add: trace3_def)

lemma lastCharging3_reachable: "reachable 3 lastCharging3"
  using trace3_reachable by (simp add: trace3_def lastCharging3_def)

lemma last_step3: "updateSimulation lastCharging3 = Inr done3"
  by code_simp

section \<open>The claims\<close>

text \<open>
  C1. The specification has the reset raise an InvalidCaseError for a case identifier
  outside {1,2,3,4}, and for an identifier in {1,2,3,4} never raise and recreate the
  fixed three-cell pack with phase charging and chargingActive true.

  In the code \<^verbatim>\<open>resetSimulation\<close> checks nothing and throws nothing; the selector it
  reads offers the values 1 to 4 only. What holds, for every identifier, inside
  {1,2,3,4} or not: the assignments store the identifier and create the fixed
  three-cell pack with phase charging and chargingActive true, and the first frame,
  run from inside the reset, returns a state that still has phase charging and
  chargingActive true.
\<close>

theorem reset_never_raises:
  "cells (resetState c) =
     [\<lparr>capacity = 3.0, SOC = 0.70, R = 0.05\<rparr>,
      \<lparr>capacity = 2.5, SOC = 0.50, R = 0.08\<rparr>,
      \<lparr>capacity = 3.5, SOC = 0.90, R = 0.03\<rparr>] \<and>
   phase (resetState c) = Charging \<and> chargingActive (resetState c) \<and>
   simulationCase (resetState c) = c \<and>
   (\<exists>s. resetSimulation c = Inr s \<and> simulationCase s = c \<and> phase s = Charging \<and>
        chargingActive s)"
proof -
  have "case resetSimulation c of Inl e \<Rightarrow> False
    | Inr s \<Rightarrow> simulationCase s = c \<and> phase s = Charging \<and> chargingActive s"
    using first_frame_valid [of c] first_frame_other [of c] by blast
  then have "\<exists>s. resetSimulation c = Inr s \<and> simulationCase s = c \<and> phase s = Charging \<and>
        chargingActive s"
    by (cases "resetSimulation c") auto
  then show ?thesis by (simp add: resetState_def initCells_def)
qed

text \<open>
  The claim as stated fails at the identifiers 5 and 0: the reset returns a state
  there, and no InvalidCaseError.
\<close>

theorem reset_invalid_case_counterexample:
  "resetSimulation 5 \<noteq> Inl InvalidCaseError \<and> resetSimulation 0 \<noteq> Inl InvalidCaseError \<and>
   \<not> isl (resetSimulation 5) \<and> \<not> isl (resetSimulation 0)"
  by code_simp

text \<open>
  C2. For every case identifier in {1,2,3,4}, every state of a run started by the reset
  and every cell of the pack, the SOC of the cell is between 0 and 1. Moreover a step
  from such a state never throws, so a run goes on for any number of steps.
\<close>

theorem soc_bounds:
  assumes "c \<in> {1, 2, 3, 4}" and "reachable c s"
  shows "list_all (\<lambda>cell. 0 \<le> SOC cell \<and> SOC cell \<le> 1) (cells s) \<and>
         (\<exists>s'. updateSimulation s = Inr s')"
proof -
  from assms(2) have ok: "stateOK c s" by (rule reachable_stateOK)
  then have "list_all cellOK (cells s)" by (simp add: stateOK_def)
  then have "list_all (\<lambda>cell. 0 \<le> SOC cell \<and> SOC cell \<le> 1) (cells s)"
    by (simp add: list_all_iff cellOK_def)
  moreover from updateSimulation_step [OF ok] have "\<exists>s'. updateSimulation s = Inr s'"
    by blast
  ultimately show ?thesis by simp
qed

text \<open>An instance: the state after the first frame of case 3, in which a transfer ran.\<close>

theorem soc_bounds_witness:
  "let s = \<lparr>phase = Charging, chargingActive = True, simulationRunning = True,
        cells =
          [\<lparr>capacity = 3, SOC = 421 / 600, R = 1 / 20\<rparr>,
           \<lparr>capacity = 5 / 2, SOC = 503 / 1000, R = 2 / 25\<rparr>,
           \<lparr>capacity = 7 / 2, SOC = 6303 / 7000, R = 3 / 100\<rparr>],
        simulationCase = 3\<rparr>
   in reachable 3 s \<and>
      list_all (\<lambda>cell. 0 \<le> SOC cell \<and> SOC cell \<le> 1) (cells s) \<and>
      (\<exists>s'. updateSimulation s = Inr s')"
proof -
  note r = reach_frame [OF reach_reset first_frame_3]
  from soc_bounds [OF _ r] r show ?thesis by (simp add: Let_def)
qed

text \<open>
  C3. From every state of a run with a case identifier in {1,2,3,4}, a step either
  keeps the phase or makes one of three moves: charging to balancing (cases 1 and 2),
  charging to done (cases 3 and 4), balancing to done (cases 1 and 2). So a step never
  returns to charging from balancing or done, cases 3 and 4 never have phase balancing,
  and cases 1 and 2 never move from charging to done in one step.
\<close>

theorem phase_transitions:
  assumes "c \<in> {1, 2, 3, 4}" and "reachable c s"
  shows "\<exists>s'. updateSimulation s = Inr s' \<and>
           (phase s' = phase s \<or>
            phase s = Charging \<and> phase s' = Balancing \<and> (c = 1 \<or> c = 2) \<or>
            phase s = Charging \<and> phase s' = Done \<and> (c = 3 \<or> c = 4) \<or>
            phase s = Balancing \<and> phase s' = Done \<and> (c = 1 \<or> c = 2)) \<and>
           (phase s \<noteq> Charging \<longrightarrow> phase s' \<noteq> Charging) \<and>
           (c = 3 \<or> c = 4 \<longrightarrow> phase s \<noteq> Balancing \<and> phase s' \<noteq> Balancing) \<and>
           (c = 1 \<or> c = 2 \<longrightarrow> \<not> (phase s = Charging \<and> phase s' = Done))"
proof -
  from assms(2) have ok: "stateOK c s" by (rule reachable_stateOK)
  from updateSimulation_step [OF ok] obtain s' where
    s': "updateSimulation s = Inr s'" "stateOK c s'"
      "phase s' = phase s \<and> chargingActive s' = chargingActive s \<or>
       phase s = Charging \<and> phase s' = Balancing \<and> (c = 1 \<or> c = 2) \<and>
         chargingActive s \<and> \<not> chargingActive s' \<or>
       phase s = Charging \<and> phase s' = Done \<and> (c = 3 \<or> c = 4) \<and>
         chargingActive s' = chargingActive s \<or>
       phase s = Balancing \<and> phase s' = Done \<and> (c = 1 \<or> c = 2) \<and>
         chargingActive s' = chargingActive s"
    by blast
  from ok s'(2) have bal: "phase s = Balancing \<longrightarrow> c = 1 \<or> c = 2"
    "phase s' = Balancing \<longrightarrow> c = 1 \<or> c = 2"
    by (simp_all add: stateOK_def)
  from s'(3) bal have
    "(phase s' = phase s \<or>
            phase s = Charging \<and> phase s' = Balancing \<and> (c = 1 \<or> c = 2) \<or>
            phase s = Charging \<and> phase s' = Done \<and> (c = 3 \<or> c = 4) \<or>
            phase s = Balancing \<and> phase s' = Done \<and> (c = 1 \<or> c = 2)) \<and>
           (phase s \<noteq> Charging \<longrightarrow> phase s' \<noteq> Charging) \<and>
           (c = 3 \<or> c = 4 \<longrightarrow> phase s \<noteq> Balancing \<and> phase s' \<noteq> Balancing) \<and>
           (c = 1 \<or> c = 2 \<longrightarrow> \<not> (phase s = Charging \<and> phase s' = Done))"
    by auto
  with s'(1) show ?thesis by blast
qed

text \<open>
  Three instances, one for each move. On the case-1 run: the state after 69 steps,
  from which the next step trips the overvoltage check and moves from charging to
  balancing, and the state after 425 steps, from which the next step moves from
  balancing to done. On the case-3 run: the state after 171 steps, from which the next
  step moves from charging to done.
\<close>

theorem phase_transitions_witness:
  "reachable 1 (charging1 69) \<and> phase (charging1 69) = Charging \<and>
   (\<exists>s'. updateSimulation (charging1 69) = Inr s' \<and> phase s' = Balancing \<and>
      (phase s' = phase (charging1 69) \<or>
       phase (charging1 69) = Charging \<and> phase s' = Balancing \<or>
       phase (charging1 69) = Charging \<and> phase s' = Done \<or>
       phase (charging1 69) = Balancing \<and> phase s' = Done)) \<and>
   reachable 1 (balancing1b 355) \<and> phase (balancing1b 355) = Balancing \<and>
   (\<exists>s'. updateSimulation (balancing1b 355) = Inr s' \<and> phase s' = Done \<and>
      (phase s' = phase (balancing1b 355) \<or>
       phase (balancing1b 355) = Charging \<and> phase s' = Balancing \<or>
       phase (balancing1b 355) = Charging \<and> phase s' = Done \<or>
       phase (balancing1b 355) = Balancing \<and> phase s' = Done)) \<and>
   reachable 3 lastCharging3 \<and> phase lastCharging3 = Charging \<and>
   (\<exists>s'. updateSimulation lastCharging3 = Inr s' \<and> phase s' = Done \<and>
      (phase s' = phase lastCharging3 \<or>
       phase lastCharging3 = Charging \<and> phase s' = Balancing \<or>
       phase lastCharging3 = Charging \<and> phase s' = Done \<or>
       phase lastCharging3 = Balancing \<and> phase s' = Done))"
proof -
  have r1: "reachable 1 (charging1 69)" by (simp add: charging1_reachable)
  have p1: "phase (charging1 69) = Charging" by (simp add: charging1_def)
  from phase_transitions [OF _ r1] obtain s1 where
    s1: "updateSimulation (charging1 69) = Inr s1"
    "phase s1 = phase (charging1 69) \<or>
       phase (charging1 69) = Charging \<and> phase s1 = Balancing \<or>
       phase (charging1 69) = Charging \<and> phase s1 = Done \<or>
       phase (charging1 69) = Balancing \<and> phase s1 = Done"
    by auto
  from s1(1) have "phase s1 = Balancing" by (auto simp: trip_at_70)
  with r1 p1 s1 have i1:
    "reachable 1 (charging1 69) \<and> phase (charging1 69) = Charging \<and>
   (\<exists>s'. updateSimulation (charging1 69) = Inr s' \<and> phase s' = Balancing \<and>
      (phase s' = phase (charging1 69) \<or>
       phase (charging1 69) = Charging \<and> phase s' = Balancing \<or>
       phase (charging1 69) = Charging \<and> phase s' = Done \<or>
       phase (charging1 69) = Balancing \<and> phase s' = Done))"
    by blast
  have r2: "reachable 1 (balancing1b 355)" by (simp add: balancing1b_reachable)
  have p2: "phase (balancing1b 355) = Balancing" by (simp add: balancing1b_def)
  from phase_transitions [OF _ r2] obtain s2 where
    s2: "updateSimulation (balancing1b 355) = Inr s2"
    "phase s2 = phase (balancing1b 355) \<or>
       phase (balancing1b 355) = Charging \<and> phase s2 = Balancing \<or>
       phase (balancing1b 355) = Charging \<and> phase s2 = Done \<or>
       phase (balancing1b 355) = Balancing \<and> phase s2 = Done"
    by auto
  from s2(1) have "phase s2 = Done" by (auto simp: balancing1b_last done1_def)
  with r2 p2 s2 have i2:
    "reachable 1 (balancing1b 355) \<and> phase (balancing1b 355) = Balancing \<and>
   (\<exists>s'. updateSimulation (balancing1b 355) = Inr s' \<and> phase s' = Done \<and>
      (phase s' = phase (balancing1b 355) \<or>
       phase (balancing1b 355) = Charging \<and> phase s' = Balancing \<or>
       phase (balancing1b 355) = Charging \<and> phase s' = Done \<or>
       phase (balancing1b 355) = Balancing \<and> phase s' = Done))"
    by blast
  have r3: "reachable 3 lastCharging3" by (rule lastCharging3_reachable)
  have p3: "phase lastCharging3 = Charging" by (simp add: lastCharging3_def equalizing3_def)
  from phase_transitions [OF _ r3] obtain s3 where
    s3: "updateSimulation lastCharging3 = Inr s3"
    "phase s3 = phase lastCharging3 \<or>
       phase lastCharging3 = Charging \<and> phase s3 = Balancing \<or>
       phase lastCharging3 = Charging \<and> phase s3 = Done \<or>
       phase lastCharging3 = Balancing \<and> phase s3 = Done"
    by auto
  from s3(1) have "phase s3 = Done" by (auto simp: last_step3 done3_def)
  with r3 p3 s3 have i3:
    "reachable 3 lastCharging3 \<and> phase lastCharging3 = Charging \<and>
   (\<exists>s'. updateSimulation lastCharging3 = Inr s' \<and> phase s' = Done \<and>
      (phase s' = phase lastCharging3 \<or>
       phase lastCharging3 = Charging \<and> phase s' = Balancing \<or>
       phase lastCharging3 = Charging \<and> phase s' = Done \<or>
       phase lastCharging3 = Balancing \<and> phase s' = Done))"
    by blast
  from i1 i2 i3 show ?thesis by blast
qed

text \<open>
  C4. For every cell and every current \<open>x\<close>, zero or not, the measured voltage with
  chargingActive false is the open-circuit voltage
  \<open>V_MIN + (V_MAX - V_MIN) * SOC\<close>: the IR term is dropped.
\<close>

theorem measured_voltage_inactive:
  "getMeasuredVoltage False c x = getOCV c \<and>
   getOCV c = V_MIN + (V_MAX - V_MIN) * SOC c"
  by (simp add: getMeasuredVoltage_def getOCV_def)

text \<open>
  C5. For every pack and either value of chargingActive, \<^verbatim>\<open>getChargingCurrentCase4\<close>
  returns \<open>I_BASE * 0.1 = 0.0005\<close> when the maximum over the cells of the measured
  voltage at \<open>I_BASE\<close> is at least OVP, and \<open>I_BASE = 0.005\<close> otherwise (also on an
  empty pack, where there is no maximum and the running value stays 0).
\<close>

theorem case4_current: "getChargingCurrentCase4 ca cs =
   (if cs \<noteq> [] \<and> Max (set (map (\<lambda>c. getMeasuredVoltage ca c I_BASE) cs)) \<ge> OVP
    then I_BASE * 0.1 else I_BASE) \<and> I_BASE * 0.1 = 0.0005 \<and> I_BASE = 0.005"
proof -
  have ovp: "\<not> OVP \<le> 0" by (simp add: OVP_def)
  have "getChargingCurrentCase4 ca cs =
   (if cs \<noteq> [] \<and> Max (set (map (\<lambda>c. getMeasuredVoltage ca c I_BASE) cs)) \<ge> OVP
    then I_BASE * 0.1 else I_BASE)"
  proof (cases "cs = []")
    case True
    then show ?thesis by (simp add: getChargingCurrentCase4_def ovp)
  next
    case False
    then show ?thesis
      by (simp add: getChargingCurrentCase4_def Let_def foldl_running_max_ge
            Max_map_ge_iff [OF False] ovp del: set_map)
  qed
  moreover have "I_BASE * 0.1 = 0.0005 \<and> I_BASE = 0.005" by (simp add: I_BASE_def)
  ultimately show ?thesis by blast
qed

text \<open>
  C6. A step from a state whose phase is done throws nothing and returns the very same
  state: phase, chargingActive, cells, case identifier and the running flag.
\<close>

theorem done_step_identity: "phase s = Done \<Longrightarrow> updateSimulation s = Inr s"
  by (simp add: updateSimulation_def endCondition_def)

text \<open>
  An instance: the state in which the case-1 run ends, 426 steps after the reset. A
  step from the reset state, by contrast, changes the state.
\<close>

theorem done_step_identity_witness:
  "reachable 1 done1 \<and> phase done1 = Done \<and> updateSimulation done1 = Inr done1 \<and>
   updateSimulation (resetState 1) \<noteq> Inr (resetState 1)"
proof -
  have p: "phase done1 = Done" by (simp add: done1_def)
  have "updateSimulation (resetState 1) \<noteq> Inr (resetState 1)" by code_simp
  with done_step_identity [OF p] p done1_reachable show ?thesis by simp
qed

text \<open>
  C7. Donor and receiver selection (case 3 while charging, case 2 while balancing; both
  are \<open>equalize\<close>) on a pack with at least one cell: the donor index carries the
  maximum measured voltage and every cell before it is strictly below the maximum; the
  receiver index carries the minimum and every cell before it is strictly above. So
  among cells with equal maximum (or minimum) voltage the first in scan order is chosen.
\<close>

theorem tie_break_first_occurrence:
  assumes "cs \<noteq> []"
  shows "\<exists>maxVoltage maxIndex minVoltage minIndex.
           findMaxMin ca I cs = Inr (maxVoltage, maxIndex, minVoltage, minIndex) \<and>
           equalize ca I cs =
             Inr (if maxVoltage - minVoltage > tolVoltage
                  then transfer maxIndex minIndex cs else cs) \<and>
           maxIndex < length cs \<and> minIndex < length cs \<and>
           getMeasuredVoltage ca (cs ! maxIndex) I = maxVoltage \<and>
           maxVoltage = Max (set (map (\<lambda>c. getMeasuredVoltage ca c I) cs)) \<and>
           (\<forall>j<maxIndex. getMeasuredVoltage ca (cs ! j) I < maxVoltage) \<and>
           getMeasuredVoltage ca (cs ! minIndex) I = minVoltage \<and>
           minVoltage = Min (set (map (\<lambda>c. getMeasuredVoltage ca c I) cs)) \<and>
           (\<forall>j<minIndex. minVoltage < getMeasuredVoltage ca (cs ! j) I)"
proof -
  from findMaxMin_inv [OF assms, of ca I] obtain maxV maxI minV minI where
    f: "findMaxMin ca I cs = Inr (maxV, maxI, minV, minI)" and
    inv: "scanInv (\<lambda>c. getMeasuredVoltage ca c I) cs (length cs) (maxV, maxI, minV, minI)"
    by (metis prod_cases4)
  note mm = scanInv_Max_Min [OF inv]
  have e: "equalize ca I cs =
      Inr (if maxV - minV > tolVoltage then transfer maxI minI cs else cs)"
    by (simp add: equalize_def f)
  from inv have
    "maxI < length cs \<and> minI < length cs \<and>
     getMeasuredVoltage ca (cs ! maxI) I = maxV \<and>
     (\<forall>j<maxI. getMeasuredVoltage ca (cs ! j) I < maxV) \<and>
     getMeasuredVoltage ca (cs ! minI) I = minV \<and>
     (\<forall>j<minI. minV < getMeasuredVoltage ca (cs ! j) I)"
    by (simp add: scanInv_def)
  with f e mm show ?thesis by (intro exI [of _ maxV] exI [of _ maxI] exI [of _ minV] exI [of _ minI]) simp
qed

text \<open>
  An instance with two ties: cells 1 and 2 share the maximum, cells 0 and 3 the
  minimum; the donor is cell 1 and the receiver cell 0.
\<close>

theorem tie_break_first_occurrence_witness:
  "let cs = [\<lparr>capacity = 3, SOC = 1 / 2, R = 1 / 20\<rparr>,
             \<lparr>capacity = 3, SOC = 9 / 10, R = 1 / 20\<rparr>,
             \<lparr>capacity = 3, SOC = 9 / 10, R = 1 / 20\<rparr>,
             \<lparr>capacity = 3, SOC = 1 / 2, R = 1 / 20\<rparr>]
   in cs \<noteq> [] \<and>
      findMaxMin False 0 cs = Inr (102 / 25, 1, 18 / 5, 0) \<and>
      (\<exists>maxVoltage maxIndex minVoltage minIndex.
         findMaxMin False 0 cs = Inr (maxVoltage, maxIndex, minVoltage, minIndex) \<and>
         (\<forall>j<maxIndex. getMeasuredVoltage False (cs ! j) 0 < maxVoltage) \<and>
         (\<forall>j<minIndex. minVoltage < getMeasuredVoltage False (cs ! j) 0))"
proof -
  let ?cs = "[\<lparr>capacity = 3, SOC = 1 / 2, R = 1 / 20\<rparr>,
             \<lparr>capacity = 3, SOC = 9 / 10, R = 1 / 20\<rparr>,
             \<lparr>capacity = 3, SOC = 9 / 10, R = 1 / 20\<rparr>,
             \<lparr>capacity = 3, SOC = 1 / 2, R = (1 / 20 :: real)\<rparr>]"
  have ne: "?cs \<noteq> []" by simp
  have v: "findMaxMin False 0 ?cs = Inr (102 / 25, 1, 18 / 5, 0)" by code_simp
  from tie_break_first_occurrence [OF ne, of False 0] have
    "\<exists>maxVoltage maxIndex minVoltage minIndex.
         findMaxMin False 0 ?cs = Inr (maxVoltage, maxIndex, minVoltage, minIndex) \<and>
         (\<forall>j<maxIndex. getMeasuredVoltage False (?cs ! j) 0 < maxVoltage) \<and>
         (\<forall>j<minIndex. minVoltage < getMeasuredVoltage False (?cs ! j) 0)"
    by blast
  with v show ?thesis by (simp only: Let_def ne simp_thms)
qed

text \<open>
  C8. From a state of a run (case identifier in {1,2,3,4}) with phase charging and
  chargingActive true, in a step with no balancing transfer (cases 1, 2 and 4, or
  case 3 when the voltage spread after the increment is at most tolVoltage), every
  cell's SOC after the step is at least its SOC before. This holds whether or not the
  overvoltage trip of cases 1 and 2 fires in the step.
\<close>

theorem charging_soc_monotone:
  assumes "c \<in> {1, 2, 3, 4}" and "reachable c s"
    and "phase s = Charging" and "chargingActive s"
    and "c = 3 \<longrightarrow>
         Max (set (map (\<lambda>cell. getMeasuredVoltage True cell I_BASE)
                    (map (chargeCell I_BASE) (cells s))))
         - Min (set (map (\<lambda>cell. getMeasuredVoltage True cell I_BASE)
                      (map (chargeCell I_BASE) (cells s)))) \<le> tolVoltage"
  shows "\<exists>s'. updateSimulation s = Inr s' \<and> length (cells s') = length (cells s) \<and>
           (\<forall>i<length (cells s). SOC (cells s ! i) \<le> SOC (cells s' ! i))"
proof -
  from assms(2) have ok: "stateOK c s" by (rule reachable_stateOK)
  then have sc: "simulationCase s = c" and ne: "cells s \<noteq> []"
    and cok: "list_all cellOK (cells s)"
    by (simp_all add: stateOK_def)
  let ?I = "if simulationCase s = 4
          then getChargingCurrentCase4 (chargingActive s) (cells s) else I_BASE"
  have "\<exists>s1. chargingPhase s = Inr s1 \<and> cells s1 = map (chargeCell ?I) (cells s)"
  proof (cases "c = 3")
    case True
    with chargingPhase_case_3 [of s] assms(4,5) sc ne show ?thesis by simp
  next
    case False
    with chargingPhase_cases_124 [of s] assms(4) sc show ?thesis by simp
  qed
  then obtain s1 where s1: "chargingPhase s = Inr s1"
    "cells s1 = map (chargeCell ?I) (cells s)" by blast
  have upd: "updateSimulation s = Inr (endCondition s1)"
    by (simp add: updateSimulation_def assms(3) s1(1))
  have cells: "cells (endCondition s1) = map (chargeCell ?I) (cells s)"
    by (simp add: endCondition_def Let_def s1(2))
  have "SOC (cells s ! i) \<le> SOC (map (chargeCell ?I) (cells s) ! i)"
    if "i < length (cells s)" for i
  proof -
    from cok that have "cellOK (cells s ! i)" by (simp add: list_all_length)
    from chargeCell_mono [OF I_effective_pos [of s] this] that show ?thesis by simp
  qed
  with upd cells show ?thesis by simp
qed

text \<open>
  Two instances. The step from the state after 69 steps of case 1: the overvoltage
  trip fires in it, and no SOC goes down. The step from the state after 156 steps of
  case 3: the spread after the increment is within the tolerance, no transfer runs,
  and no SOC goes down.
\<close>

theorem charging_soc_monotone_witness:
  "reachable 1 (charging1 69) \<and> phase (charging1 69) = Charging \<and>
   chargingActive (charging1 69) \<and>
   (\<exists>s'. updateSimulation (charging1 69) = Inr s' \<and> phase s' = Balancing \<and>
      length (cells s') = length (cells (charging1 69)) \<and>
      (\<forall>i<length (cells (charging1 69)).
          SOC (cells (charging1 69) ! i) \<le> SOC (cells s' ! i))) \<and>
   reachable 3 balanced3 \<and> phase balanced3 = Charging \<and>
   chargingActive balanced3 \<and>
   Max (set (map (\<lambda>cell. getMeasuredVoltage True cell I_BASE)
              (map (chargeCell I_BASE) (cells balanced3))))
   - Min (set (map (\<lambda>cell. getMeasuredVoltage True cell I_BASE)
                (map (chargeCell I_BASE) (cells balanced3))))
   \<le> tolVoltage \<and>
   (\<exists>s'. updateSimulation balanced3 = Inr s' \<and> 
      length (cells s') = length (cells balanced3) \<and>
      (\<forall>i<length (cells balanced3).
          SOC (cells balanced3 ! i) \<le> SOC (cells s' ! i)))"
proof -
  have r: "reachable 1 (charging1 69)" by (simp add: charging1_reachable)
  have p: "phase (charging1 69) = Charging" "chargingActive (charging1 69)"
    by (simp_all add: charging1_def)
  from charging_soc_monotone [OF _ r p] obtain s' where
    s': "updateSimulation (charging1 69) = Inr s'"
    "length (cells s') = length (cells (charging1 69))"
    "\<forall>i<length (cells (charging1 69)). SOC (cells (charging1 69) ! i) \<le> SOC (cells s' ! i)"
    by auto
  from s'(1) have "phase s' = Balancing" by (auto simp: trip_at_70)
  with s' have i1:
    "(\<exists>s'. updateSimulation (charging1 69) = Inr s' \<and> phase s' = Balancing \<and>
      length (cells s') = length (cells (charging1 69)) \<and>
      (\<forall>i<length (cells (charging1 69)).
          SOC (cells (charging1 69) ! i) \<le> SOC (cells s' ! i)))"
    by blast
  note r3 = balanced3_reachable
  have p3: "phase balanced3 = Charging"
    "chargingActive balanced3"
    by (simp_all add: balanced3_def equalizing3_def)
  note sp = balanced3_spread
  from charging_soc_monotone [OF _ r3 p3] sp have i3:
    "(\<exists>s'. updateSimulation balanced3 = Inr s' \<and> 
      length (cells s') = length (cells balanced3) \<and>
      (\<forall>i<length (cells balanced3).
          SOC (cells balanced3 ! i) \<le> SOC (cells s' ! i)))"
    by simp
  from r p i1 r3 p3 sp i3 show ?thesis by blast
qed

text \<open>
  C9. In every state of a run with a case identifier in {1,2,3,4}, phase charging
  implies chargingActive true: the test of chargingActive before the SOC increment
  never fails there. A step from such a state turns chargingActive from true to false
  only when it also moves the phase away from charging.
\<close>

theorem charging_implies_active:
  assumes "c \<in> {1, 2, 3, 4}" and "reachable c s"
  shows "(phase s = Charging \<longrightarrow> chargingActive s) \<and>
         (\<exists>s'. updateSimulation s = Inr s' \<and>
            (chargingActive s \<and> \<not> chargingActive s'
               \<longrightarrow> phase s = Charging \<and> phase s' \<noteq> Charging))"
proof -
  from assms(2) have ok: "stateOK c s" by (rule reachable_stateOK)
  then have "phase s = Charging \<longrightarrow> chargingActive s" by (simp add: stateOK_def)
  moreover from updateSimulation_step [OF ok] have
    "\<exists>s'. updateSimulation s = Inr s' \<and>
            (chargingActive s \<and> \<not> chargingActive s'
               \<longrightarrow> phase s = Charging \<and> phase s' \<noteq> Charging)"
    by auto
  ultimately show ?thesis by blast
qed

text \<open>
  An instance: the state after 69 steps of case 1 is charging with chargingActive
  true; the next step clears chargingActive and leaves charging.
\<close>

theorem charging_implies_active_witness:
  "reachable 1 (charging1 69) \<and> phase (charging1 69) = Charging \<and>
   chargingActive (charging1 69) \<and>
   (\<exists>s'. updateSimulation (charging1 69) = Inr s' \<and> \<not> chargingActive s' \<and>
      phase s' \<noteq> Charging)"
proof -
  have r: "reachable 1 (charging1 69)" by (simp add: charging1_reachable)
  have p: "phase (charging1 69) = Charging" by (simp add: charging1_def)
  from charging_implies_active [OF _ r] p obtain s' where
    s': "chargingActive (charging1 69)"
    "updateSimulation (charging1 69) = Inr s'"
    "chargingActive (charging1 69) \<and> \<not> chargingActive s'
       \<longrightarrow> phase (charging1 69) = Charging \<and> phase s' \<noteq> Charging"
    by auto
  from s'(2) have "\<not> chargingActive s'" by (auto simp: trip_at_70)
  with r p s' show ?thesis by blast
qed

text \<open>
  C10. From every state of a case-1 run of the four-case page, one step of the
  four-case update and one step of the standalone update of passive.js, started from
  the same phase, chargingActive and cells, end in the same phase, chargingActive and
  cells; the update of part_000 is the same function as that of passive.js. The
  standalone pages increment the SOC without testing chargingActive; on a run the test
  of the four-case page never fails.
\<close>

theorem passive_equivalence:
  assumes "reachable 1 s"
  shows "\<exists>s'. updateSimulation s = Inr s' \<and> simulationCase s' = 1 \<and>
           pack_state.truncate s' = passive_updateSimulation (pack_state.truncate s) \<and>
           part000_updateSimulation (pack_state.truncate s)
             = passive_updateSimulation (pack_state.truncate s)"
proof -
  from assms have "stateOK 1 s" by (rule reachable_stateOK)
  then have "simulationCase s = 1" "phase s = Charging \<longrightarrow> chargingActive s"
    by (simp_all add: stateOK_def)
  from passive_step [OF this] show ?thesis by (simp add: part000_is_passive)
qed

text \<open>
  An instance: the step from the state after 69 steps of case 1, which stops charging
  in all three pages.
\<close>

theorem passive_equivalence_witness:
  "reachable 1 (charging1 69) \<and>
   (\<exists>s'. updateSimulation (charging1 69) = Inr s' \<and> phase s' = Balancing \<and>
      pack_state.truncate s' = passive_updateSimulation (pack_state.truncate (charging1 69)) \<and>
      pack_state.truncate s' = part000_updateSimulation (pack_state.truncate (charging1 69)))"
proof -
  have r: "reachable 1 (charging1 69)" by (simp add: charging1_reachable)
  from passive_equivalence [OF r] obtain s' where
    s': "updateSimulation (charging1 69) = Inr s'"
    "pack_state.truncate s' = passive_updateSimulation (pack_state.truncate (charging1 69))"
    "part000_updateSimulation (pack_state.truncate (charging1 69))
       = passive_updateSimulation (pack_state.truncate (charging1 69))"
    by auto
  from s'(1) have "phase s' = Balancing" by (auto simp: trip_at_70)
  with r s' show ?thesis by auto
qed

end
